theory Spec2Isabelle
  imports Complex_Main
begin

section \<open>The segmented sieve of \<^verbatim>\<open>sieve.ts\<close>\<close>

text \<open>
  The class \<^verbatim>\<open>Sieve\<close> computes the n-th prime (counted from 0) by sieving the range
  below an estimated upper limit in chunks of at most \<^verbatim>\<open>MAX_ARRAY_SIZE\<close> entries.

  Numbers. The source works on JavaScript numbers that hold integers. Positions
  (offsets, lengths, array indices, the primes returned) are natural numbers here, counts
  and ranks (\<^verbatim>\<open>n\<close>, \<^verbatim>\<open>primeCount\<close>, \<^verbatim>\<open>targetCount\<close>, \<^verbatim>\<open>count\<close>) and the upper limit are
  integers, so that \<^verbatim>\<open>n < 0\<close> and \<^verbatim>\<open>n - primeCount\<close> mean what they mean in the source.
  Integer arithmetic on doubles is exact below \<open>2 ^ 53\<close>; the development is about
  that range, and \<^verbatim>\<open>Math.ceil(offset / i)\<close> is there the integer ceiling of the quotient.

  Errors. The two \<^verbatim>\<open>throw\<close> statements are the two values of \<open>error\<close>. An outcome is
  \<open>Some (Inr p)\<close> for a returned number, \<open>Some (Inl e)\<close> for a thrown error and \<open>None\<close>
  for a call that does not return.
\<close>

datatype error = InvalidArgument | BoundExceeded

subsection \<open>Arrays of booleans\<close>

text \<open>
  \<^verbatim>\<open>primes[i]\<close> read as a condition: an index outside the array reads \<^verbatim>\<open>undefined\<close>,
  which is falsy.
\<close>

definition truthy_at :: "bool list \<Rightarrow> nat \<Rightarrow> bool" where
  "truthy_at primes i = (i < length primes \<and> primes ! i)"

text \<open>
  \<^verbatim>\<open>primes[i] = v\<close>: a write at or beyond the length extends the array. The holes that
  this leaves read as \<^verbatim>\<open>undefined\<close>, so they are \<open>False\<close> here.
\<close>

definition array_store :: "bool list \<Rightarrow> nat \<Rightarrow> bool \<Rightarrow> bool list" where
  "array_store primes i v =
     (if i < length primes then primes[i := v]
      else primes @ replicate (i - length primes) False @ [v])"

subsection \<open>\<^verbatim>\<open>generatePrimesSieve\<close>\<close>

text \<open>
  The inner loop \<^verbatim>\<open>for (let j = ...; j < limit; j += i) primes[j] = false\<close>, from the
  current \<open>j\<close>. The source enters it with \<open>i \<ge> 2\<close> only; with \<open>i = 0\<close> it would not
  advance, and the model stops there so that the function is total.
\<close>

function mark_multiples :: "nat \<Rightarrow> nat \<Rightarrow> nat \<Rightarrow> bool list \<Rightarrow> bool list" where
  "mark_multiples i limit j primes =
     (if j < limit \<and> 0 < i then mark_multiples i limit (j + i) (array_store primes j False)
      else primes)"
  by pat_completeness auto
termination
  by (relation "measure (\<lambda>(i, limit, j, primes). limit - j)") auto

declare mark_multiples.simps [simp del]

text \<open>\<^verbatim>\<open>Math.ceil(offset / i)\<close> on integers.\<close>

definition ceil_div :: "nat \<Rightarrow> nat \<Rightarrow> nat" where
  "ceil_div offset i = (offset + i - 1) div i"

text \<open>
  The outer loop \<^verbatim>\<open>for (let i = 2; i * i < upperLimit; i++)\<close>, from the current \<open>i\<close>,
  with \<^verbatim>\<open>upperLimit = offset + limit\<close>. The first branch is the \<^verbatim>\<open>continue\<close>.
\<close>

function sieve_loop :: "nat \<Rightarrow> nat \<Rightarrow> nat \<Rightarrow> bool list \<Rightarrow> bool list" where
  "sieve_loop offset limit i primes =
     (if i * i < offset + limit then
        (if i \<ge> offset \<and> \<not> truthy_at primes (i - offset)
         then sieve_loop offset limit (i + 1) primes
         else sieve_loop offset limit (i + 1)
                (mark_multiples i limit (max (i * i) (ceil_div offset i * i) - offset) primes))
      else primes)"
  by pat_completeness auto
termination
proof (relation "measure (\<lambda>(offset, limit, i, primes). offset + limit - i)")
  show "wf (measure (\<lambda>(offset, limit, i, primes). offset + limit - i))"
    by simp
next
  fix offset limit i :: nat and primes :: "bool list"
  assume "i * i < offset + limit"
  with le_square [of i] have "i < offset + limit" by linarith
  then show "((offset, limit, i + 1, primes), (offset, limit, i, primes))
      \<in> measure (\<lambda>(offset, limit, i, primes). offset + limit - i)"
    by simp
next
  fix offset limit i :: nat and primes :: "bool list"
  assume "i * i < offset + limit"
  with le_square [of i] have "i < offset + limit" by linarith
  then show "((offset, limit, i + 1,
        mark_multiples i limit (max (i * i) (ceil_div offset i * i) - offset) primes),
       (offset, limit, i, primes))
      \<in> measure (\<lambda>(offset, limit, i, primes). offset + limit - i)"
    by simp
qed

declare sieve_loop.simps [simp del]

text \<open>
  \<^verbatim>\<open>new Array(limit).fill(true)\<close>, then \<^verbatim>\<open>primes[0] = primes[1] = false\<close> when the offset
  is 0 (the right assignment first), then the loops.
\<close>

definition generatePrimesSieve :: "nat \<Rightarrow> nat \<Rightarrow> bool list" where
  "generatePrimesSieve offset limit =
     (let primes = replicate limit True;
          primes = (if offset = 0 then array_store (array_store primes 1 False) 0 False
                    else primes)
      in sieve_loop offset limit 2 primes)"

subsection \<open>\<^verbatim>\<open>findTargetPrimeInSegment\<close>\<close>

text \<open>The loop \<^verbatim>\<open>for (let i = 0; i < primes.length; i++)\<close>, from the current \<open>i\<close> and \<open>count\<close>.\<close>

function scan_segment :: "bool list \<Rightarrow> int \<Rightarrow> nat \<Rightarrow> nat \<Rightarrow> int \<Rightarrow> nat option" where
  "scan_segment primes targetCount offset i count =
     (if i < length primes then
        (if primes ! i then
           (if count = targetCount then Some (i + offset)
            else scan_segment primes targetCount offset (i + 1) (count + 1))
         else scan_segment primes targetCount offset (i + 1) count)
      else None)"
  by pat_completeness auto
termination
  by (relation "measure (\<lambda>(primes, targetCount, offset, i, count). length primes - i)") auto

declare scan_segment.simps [simp del]

definition findTargetPrimeInSegment :: "bool list \<Rightarrow> int \<Rightarrow> nat \<Rightarrow> nat option" where
  "findTargetPrimeInSegment primes targetCount offset =
     scan_segment primes targetCount offset 0 0"

subsection \<open>\<^verbatim>\<open>calculateUpperLimit\<close>\<close>

text \<open>
  For \<open>n \<ge> 6\<close> the source returns
  \<^verbatim>\<open>Math.ceil(n * (Math.log(n) + Math.log(Math.log(n))))\<close>, a computation on doubles whose
  outcome depends on the platform's logarithm. Its value is the parameter \<open>pnt\<close>:
  every statement below that mentions it holds for whatever that value is.
\<close>

definition calculateUpperLimit :: "int \<Rightarrow> int \<Rightarrow> int" where
  "calculateUpperLimit pnt n = (if n < 6 then 11 else pnt)"

text \<open>
  The expression itself, \<^verbatim>\<open>Math.ceil(n * (Math.log(n) + Math.log(Math.log(n))))\<close>, with
  the logarithm as the parameter \<open>lg\<close> and the sum and the product of the reals: the
  value that \<open>pnt\<close> stands for at the argument \<open>n\<close>, so that the source's function at
  \<open>n\<close> is \<open>calculateUpperLimit (pnt_estimate lg n) n\<close>.
\<close>

definition pnt_estimate :: "(real \<Rightarrow> real) \<Rightarrow> int \<Rightarrow> int" where
  "pnt_estimate lg n =
     \<lceil>real_of_int n * (lg (real_of_int n) + lg (lg (real_of_int n)))\<rceil>"

subsection \<open>\<^verbatim>\<open>findNthPrime\<close> and \<^verbatim>\<open>NthPrime\<close>\<close>

text \<open>
  The chunk size is the static field \<^verbatim>\<open>MAX_ARRAY_SIZE\<close> in the source. The loop and the
  functions above it take it as the parameter \<open>m\<close> (\<open>findNthPrime_with\<close>,
  \<open>NthPrime_with\<close>), so that the class can be compared with itself at another chunk
  size; \<open>findNthPrime\<close> and \<open>NthPrime\<close> are the source's, at the value of the field.
  A chunk size is an array length, a natural number.
\<close>

definition MAX_ARRAY_SIZE :: nat where
  "MAX_ARRAY_SIZE = 1000000"

record loop_state =
  primeCount :: int
  offset :: nat

text \<open>
  One pass through the body of the \<^verbatim>\<open>while\<close> loop, with chunk size \<open>m\<close>: \<open>Inl\<close> is the
  \<^verbatim>\<open>return result\<close>, \<open>Inr\<close> the state after \<^verbatim>\<open>primeCount += ...; offset += limit\<close>.
\<close>

definition loop_body :: "nat \<Rightarrow> int \<Rightarrow> int \<Rightarrow> loop_state \<Rightarrow> nat + loop_state" where
  "loop_body m n upperLimit s =
     (let limit = min (nat (upperLimit - int (offset s))) m;
          primes = generatePrimesSieve (offset s) limit
      in case findTargetPrimeInSegment primes (n - primeCount s) (offset s) of
           Some result \<Rightarrow> Inl result
         | None \<Rightarrow>
             Inr \<lparr>primeCount = primeCount s + int (length (filter (\<lambda>prime. prime) primes)),
                  offset = offset s + limit\<rparr>)"

text \<open>
  The \<^verbatim>\<open>while (offset < upperLimit)\<close> loop. With chunk size 0 it does not advance, so it
  is a partial function: \<open>None\<close> is a loop that runs forever.
\<close>

partial_function (option) findNthPrime_loop ::
    "nat \<Rightarrow> int \<Rightarrow> int \<Rightarrow> loop_state \<Rightarrow> (error + nat) option" where
  "findNthPrime_loop m n upperLimit s =
     (if int (offset s) < upperLimit then
        (case loop_body m n upperLimit s of
           Inl result \<Rightarrow> Some (Inr result)
         | Inr s' \<Rightarrow> findNthPrime_loop m n upperLimit s')
      else Some (Inl BoundExceeded))"

declare findNthPrime_loop.simps [code]

definition findNthPrime_with :: "nat \<Rightarrow> int \<Rightarrow> int \<Rightarrow> (error + nat) option" where
  "findNthPrime_with m n upperLimit =
     findNthPrime_loop m n upperLimit \<lparr>primeCount = 0, offset = 0\<rparr>"

definition NthPrime_with :: "nat \<Rightarrow> int \<Rightarrow> int \<Rightarrow> (error + nat) option" where
  "NthPrime_with m pnt n =
     (if n < 0 then Some (Inl InvalidArgument)
      else if n = 0 then Some (Inr 2)
      else findNthPrime_with m n (calculateUpperLimit pnt (n + 1)))"

text \<open>The class as it is, with its chunk size of one million.\<close>

definition findNthPrime :: "int \<Rightarrow> int \<Rightarrow> (error + nat) option" where
  "findNthPrime n upperLimit = findNthPrime_with MAX_ARRAY_SIZE n upperLimit"

definition NthPrime :: "int \<Rightarrow> int \<Rightarrow> (error + nat) option" where
  "NthPrime pnt n = NthPrime_with MAX_ARRAY_SIZE pnt n"

section \<open>Primes, and what the loops maintain\<close>

text \<open>
  A prime is a number from 2 on that no number from 2 up to itself, itself excluded,
  divides.
\<close>

definition is_prime :: "nat \<Rightarrow> bool" where
  "is_prime p = (2 \<le> p \<and> (\<forall>d \<in> {2..<p}. \<not> d dvd p))"

text \<open>The number of primes in the range from 0 to \<open>k\<close>, \<open>k\<close> excluded.\<close>

definition prime_count :: "nat \<Rightarrow> nat" where
  "prime_count k = length (filter is_prime [0..<k])"

text \<open>The ascending sequence of the primes below \<open>u\<close>.\<close>

definition primes_below :: "nat \<Rightarrow> nat list" where
  "primes_below u = filter is_prime [0..<u]"

text \<open>
  Entry \<open>n\<close> (from 0) of that sequence, and the bound-exceeded error when the sequence
  is too short: what a search of the numbers below \<open>u\<close> for the prime of rank \<open>n\<close> is to
  find.
\<close>

definition nth_prime_below :: "nat \<Rightarrow> nat \<Rightarrow> error + nat" where
  "nth_prime_below u n =
     (if n < length (primes_below u) then Inr (primes_below u ! n) else Inl BoundExceeded)"

text \<open>
  The state of the array when the outer loop reaches divisor \<open>i\<close>: entry \<open>k\<close> tells
  whether \<open>off + k\<close> is at least 2 and has no divisor \<open>d\<close> with \<open>2 \<le> d < i\<close> and \<open>d * d \<le> off + k\<close>.
\<close>

definition sieved :: "nat \<Rightarrow> nat \<Rightarrow> bool list \<Rightarrow> bool" where
  "sieved off i primes =
     (\<forall>k < length primes. primes ! k =
        (2 \<le> off + k \<and> (\<forall>d. 2 \<le> d \<and> d < i \<and> d * d \<le> off + k \<longrightarrow> \<not> d dvd (off + k))))"

text \<open>
  The states in which the \<^verbatim>\<open>while\<close> loop of \<^verbatim>\<open>findNthPrime\<close> tests its condition: the
  initial one, and the one that an iteration which does not return leaves behind.
\<close>

inductive loop_head :: "nat \<Rightarrow> int \<Rightarrow> int \<Rightarrow> loop_state \<Rightarrow> bool"
  for m :: nat and n :: int and upperLimit :: int where
  start: "loop_head m n upperLimit \<lparr>primeCount = 0, offset = 0\<rparr>"
| again: "loop_head m n upperLimit s \<Longrightarrow> int (offset s) < upperLimit \<Longrightarrow>
     loop_body m n upperLimit s = Inr s' \<Longrightarrow> loop_head m n upperLimit s'"

section \<open>The sieve of one segment\<close>

subsection \<open>Trial division up to the square root\<close>

lemma is_prime_sqrt:
  "is_prime x = (2 \<le> x \<and> (\<forall>d. 2 \<le> d \<and> d * d \<le> x \<longrightarrow> \<not> d dvd x))"
proof (cases "2 \<le> x")
  case False
  then show ?thesis by (simp add: is_prime_def)
next
  case x2: True
  show ?thesis
  proof
    assume p: "is_prime x"
    have "\<not> d dvd x" if d: "2 \<le> d" "d * d \<le> x" for d
    proof -
      have "d * 2 \<le> d * d" using d(1) by (rule mult_le_mono2)
      with d have "d < x" by linarith
      with p d(1) show ?thesis by (simp add: is_prime_def)
    qed
    with x2 show "2 \<le> x \<and> (\<forall>d. 2 \<le> d \<and> d * d \<le> x \<longrightarrow> \<not> d dvd x)" by blast
  next
    assume r: "2 \<le> x \<and> (\<forall>d. 2 \<le> d \<and> d * d \<le> x \<longrightarrow> \<not> d dvd x)"
    have "\<not> d dvd x" if d: "d \<in> {2..<x}" for d
    proof
      assume "d dvd x"
      then obtain e where e: "x = d * e" by (auto simp: dvd_def)
      from d e have e2: "2 \<le> e" by (cases e; cases "e - 1") auto
      show False
      proof (cases "d \<le> e")
        case True
        then have "d * d \<le> x" unfolding e by (rule mult_le_mono2)
        moreover have "d dvd x" by (simp add: e)
        ultimately show False using r d by auto
      next
        case False
        then have "e * e \<le> x" unfolding e by (simp add: mult_le_mono1)
        moreover have "e dvd x" by (simp add: e)
        ultimately show False using r e2 by auto
      qed
    qed
    with x2 show "is_prime x" by (simp add: is_prime_def)
  qed
qed

subsection \<open>The inner loop\<close>

lemma length_mark_multiples:
  "limit \<le> length primes \<Longrightarrow> length (mark_multiples i limit j primes) = length primes"
proof (induction i limit j primes rule: mark_multiples.induct)
  case (1 i limit j primes)
  show ?case
  proof (cases "j < limit \<and> 0 < i")
    case True
    with "1.prems" have st: "array_store primes j False = primes[j := False]"
      by (simp add: array_store_def)
    from True "1.prems" "1.IH" show ?thesis
      by (subst mark_multiples.simps) (simp add: st)
  next
    case False
    then show ?thesis by (subst mark_multiples.simps) auto
  qed
qed

lemma dvd_shift:
  fixes i j k :: nat
  assumes "0 < i" "j < k"
  shows "(j + i \<le> k \<and> i dvd (k - (j + i))) = (i dvd (k - j))"
proof
  assume a: "j + i \<le> k \<and> i dvd (k - (j + i))"
  then have "k - j = (k - (j + i)) + i" by simp
  with a show "i dvd (k - j)" by (metis dvd_add_triv_right_iff)
next
  assume a: "i dvd (k - j)"
  from assms have "0 < k - j" by simp
  with a have "i \<le> k - j" by (rule dvd_imp_le)
  with assms have le: "j + i \<le> k" by linarith
  then have "k - j = (k - (j + i)) + i" by simp
  with a have "i dvd (k - (j + i))" by (metis dvd_add_triv_right_iff)
  with le show "j + i \<le> k \<and> i dvd (k - (j + i))" by simp
qed

lemma nth_mark_multiples:
  "limit \<le> length primes \<Longrightarrow> 0 < i \<Longrightarrow> k < length primes \<Longrightarrow>
   mark_multiples i limit j primes ! k =
     (primes ! k \<and> \<not> (j \<le> k \<and> k < limit \<and> i dvd (k - j)))"
proof (induction i limit j primes rule: mark_multiples.induct)
  case (1 i limit j primes)
  show ?case
  proof (cases "j < limit")
    case True
    with "1.prems" have st: "array_store primes j False = primes[j := False]"
      by (simp add: array_store_def)
    have step: "mark_multiples i limit j primes =
        mark_multiples i limit (j + i) (primes[j := False])"
      using True "1.prems" by (subst mark_multiples.simps) (simp add: st)
    have ih: "mark_multiples i limit (j + i) (primes[j := False]) ! k =
        (primes[j := False] ! k \<and> \<not> (j + i \<le> k \<and> k < limit \<and> i dvd (k - (j + i))))"
      using "1.IH" [of ] True "1.prems" by (simp add: st)
    show ?thesis
    proof (cases "k = j")
      case True
      with \<open>j < limit\<close> "1.prems" show ?thesis unfolding step ih by simp
    next
      case kj: False
      show ?thesis
      proof (cases "j < k")
        case True
        from dvd_shift [OF \<open>0 < i\<close> True] kj "1.prems" show ?thesis
          unfolding step ih by auto
      next
        case False
        with kj "1.prems" show ?thesis unfolding step ih by simp
      qed
    qed
  next
    case False
    then show ?thesis by (subst mark_multiples.simps) auto
  qed
qed

lemma le_ceil_div_mult: "0 < i \<Longrightarrow> off \<le> ceil_div off i * i"
proof -
  assume i: "0 < i"
  have "(off + i - 1) div i * i = (off + i - 1) - (off + i - 1) mod i"
    by (simp add: minus_mod_eq_div_mult)
  moreover have "(off + i - 1) mod i \<le> i - 1"
  proof -
    have "(off + i - 1) mod i < i" using i by simp
    then show ?thesis by linarith
  qed
  ultimately show ?thesis using i by (simp add: ceil_div_def)
qed

lemma ceil_div_least: "0 < i \<Longrightarrow> off \<le> q * i \<Longrightarrow> ceil_div off i \<le> q"
proof -
  assume i: "0 < i" and q: "off \<le> q * i"
  then have "off + i - 1 < Suc q * i" by simp
  then have "(off + i - 1) div i < Suc q" using i
    by (simp add: less_mult_imp_div_less)
  then show ?thesis by (simp add: ceil_div_def)
qed

text \<open>What the inner loop strikes, in absolute numbers.\<close>

lemma struck_iff:
  assumes i: "0 < i"
  shows "(max (i * i) (ceil_div off i * i) - off \<le> k \<and>
          i dvd (k - (max (i * i) (ceil_div off i * i) - off))) =
         (i * i \<le> off + k \<and> i dvd (off + k))"
proof -
  define M where "M = max (i * i) (ceil_div off i * i)"
  have offM: "off \<le> M" using le_ceil_div_mult [OF i, of off] by (simp add: M_def)
  have iM: "i dvd M" by (simp add: M_def max_def)
  have sq: "i * i \<le> M" by (simp add: M_def)
  have "(M - off \<le> k \<and> i dvd (k - (M - off))) = (i * i \<le> off + k \<and> i dvd (off + k))"
  proof
    assume a: "M - off \<le> k \<and> i dvd (k - (M - off))"
    then have le: "M \<le> off + k" using offM by linarith
    then have "k - (M - off) = off + k - M" using offM by simp
    with a have "i dvd (off + k - M)" by simp
    with iM le have "i dvd (off + k)" by (metis dvd_diffD)
    with sq le show "i * i \<le> off + k \<and> i dvd (off + k)" by simp
  next
    assume a: "i * i \<le> off + k \<and> i dvd (off + k)"
    then obtain q where q: "off + k = q * i" by (auto simp: dvd_def mult.commute)
    then have "off \<le> q * i" by simp
    from ceil_div_least [OF i this] have "ceil_div off i * i \<le> q * i"
      by (rule mult_le_mono1)
    with a q have le: "M \<le> off + k" by (simp add: M_def)
    have "i dvd (off + k - M)" using a iM by (simp add: dvd_diff_nat)
    moreover have "k - (M - off) = off + k - M" using offM le by simp
    ultimately show "M - off \<le> k \<and> i dvd (k - (M - off))" using le by simp
  qed
  then show ?thesis by (simp add: M_def)
qed

subsection \<open>The outer loop\<close>

lemma sieved_done:
  assumes s: "sieved off i primes" and k: "k < length primes" and sq: "off + k < i * i"
  shows "primes ! k = is_prime (off + k)"
proof -
  have "d < i" if "d * d \<le> off + k" for d
  proof (rule ccontr)
    assume "\<not> d < i"
    then have "i * i \<le> d * d" by (simp add: mult_le_mono)
    with that sq show False by linarith
  qed
  then have "(\<forall>d. 2 \<le> d \<and> d < i \<and> d * d \<le> off + k \<longrightarrow> \<not> d dvd (off + k)) =
      (\<forall>d. 2 \<le> d \<and> d * d \<le> off + k \<longrightarrow> \<not> d dvd (off + k))"
    by blast
  with s k show ?thesis unfolding sieved_def is_prime_sqrt by simp
qed

lemma sieved_skip:
  assumes s: "sieved off i primes" and i2: "2 \<le> i" and oi: "off \<le> i"
    and len: "i - off < length primes" and np: "\<not> primes ! (i - off)"
  shows "sieved off (i + 1) primes"
proof -
  from s len np oi i2 obtain d where d: "2 \<le> d" "d < i" "d * d \<le> i" "d dvd i"
    unfolding sieved_def by fastforce
  have "(\<forall>e. 2 \<le> e \<and> e < i + 1 \<and> e * e \<le> x \<longrightarrow> \<not> e dvd x) =
      (\<forall>e. 2 \<le> e \<and> e < i \<and> e * e \<le> x \<longrightarrow> \<not> e dvd x)" for x
  proof
    assume "\<forall>e. 2 \<le> e \<and> e < i + 1 \<and> e * e \<le> x \<longrightarrow> \<not> e dvd x"
    then show "\<forall>e. 2 \<le> e \<and> e < i \<and> e * e \<le> x \<longrightarrow> \<not> e dvd x" by auto
  next
    assume a: "\<forall>e. 2 \<le> e \<and> e < i \<and> e * e \<le> x \<longrightarrow> \<not> e dvd x"
    show "\<forall>e. 2 \<le> e \<and> e < i + 1 \<and> e * e \<le> x \<longrightarrow> \<not> e dvd x"
    proof (intro allI impI)
      fix e assume e: "2 \<le> e \<and> e < i + 1 \<and> e * e \<le> x"
      show "\<not> e dvd x"
      proof (cases "e = i")
        case False
        with e a show ?thesis by auto
      next
        case True
        show ?thesis
        proof
          assume "e dvd x"
          with True d(4) have "d dvd x" by (metis dvd_trans)
          moreover have "i \<le> i * i" by (rule le_square)
          moreover from e True have "i * i \<le> x" by simp
          ultimately have "d dvd x \<and> d * d \<le> x" using d(3) by linarith
          then show False using a d(1,2) by blast
        qed
      qed
    qed
  qed
  with s show ?thesis unfolding sieved_def by simp
qed

lemma sieved_mark:
  assumes s: "sieved off i primes" and i2: "2 \<le> i" and len: "length primes = lmt"
  shows "sieved off (i + 1)
     (mark_multiples i lmt (max (i * i) (ceil_div off i * i) - off) primes)"
proof -
  let ?j = "max (i * i) (ceil_div off i * i) - off"
  from i2 have i0: "0 < i" by simp
  have nth: "mark_multiples i lmt ?j primes ! k =
      (primes ! k \<and> \<not> (i * i \<le> off + k \<and> i dvd (off + k)))" if "k < lmt" for k
    using nth_mark_multiples [of lmt primes i k ?j] struck_iff [OF i0, of off k] len that i0
    by simp
  have split: "(\<forall>e. 2 \<le> e \<and> e < i + 1 \<and> e * e \<le> x \<longrightarrow> \<not> e dvd x) =
      ((\<forall>e. 2 \<le> e \<and> e < i \<and> e * e \<le> x \<longrightarrow> \<not> e dvd x) \<and> \<not> (i * i \<le> x \<and> i dvd x))" for x
    using i2 by (auto simp: less_Suc_eq)
  show ?thesis
    unfolding sieved_def
  proof (intro allI impI)
    fix k assume "k < length (mark_multiples i lmt ?j primes)"
    then have k: "k < lmt" using len by (simp add: length_mark_multiples)
    with s len have "primes ! k =
        (2 \<le> off + k \<and> (\<forall>d. 2 \<le> d \<and> d < i \<and> d * d \<le> off + k \<longrightarrow> \<not> d dvd (off + k)))"
      unfolding sieved_def by simp
    then show "mark_multiples i lmt ?j primes ! k =
        (2 \<le> off + k \<and> (\<forall>d. 2 \<le> d \<and> d < i + 1 \<and> d * d \<le> off + k \<longrightarrow> \<not> d dvd (off + k)))"
      unfolding nth [OF k] split by blast
  qed
qed

lemma sieve_loop_correct:
  "2 \<le> i \<Longrightarrow> length primes = lmt \<Longrightarrow> sieved off i primes \<Longrightarrow>
   length (sieve_loop off lmt i primes) = lmt \<and>
   (\<forall>k < lmt. sieve_loop off lmt i primes ! k = is_prime (off + k))"
proof (induction off lmt i primes rule: sieve_loop.induct)
  case (1 off lmt i primes)
  show ?case
  proof (cases "i * i < off + lmt")
    case False
    then have "sieve_loop off lmt i primes = primes"
      by (subst sieve_loop.simps) simp
    moreover have "primes ! k = is_prime (off + k)" if "k < lmt" for k
      using sieved_done [OF "1.prems"(3), of k] that False "1.prems"(2) by simp
    ultimately show ?thesis using "1.prems"(2) by simp
  next
    case sq: True
    have "i \<le> i * i" by (rule le_square)
    with sq "1.prems"(1) have ilt: "i < off + lmt" by linarith
    show ?thesis
    proof (cases "i \<ge> off \<and> \<not> truthy_at primes (i - off)")
      case True
      with ilt "1.prems"(2) have len: "i - off < length primes" by linarith
      with True have np: "\<not> primes ! (i - off)" by (simp add: truthy_at_def)
      have "sieved off (i + 1) primes"
        using sieved_skip [OF "1.prems"(3) "1.prems"(1) _ len np] True by simp
      with "1.IH"(1) [OF sq True] "1.prems" have
        "length (sieve_loop off lmt (i + 1) primes) = lmt \<and>
         (\<forall>k < lmt. sieve_loop off lmt (i + 1) primes ! k = is_prime (off + k))"
        by simp
      moreover have "sieve_loop off lmt i primes = sieve_loop off lmt (i + 1) primes"
        by (subst sieve_loop.simps) (simp only: sq True if_True simp_thms)
      ultimately show ?thesis by simp
    next
      case False
      let ?ps = "mark_multiples i lmt (max (i * i) (ceil_div off i * i) - off) primes"
      have "sieved off (i + 1) ?ps"
        using sieved_mark [OF "1.prems"(3) "1.prems"(1) "1.prems"(2)] .
      moreover have "length ?ps = lmt"
        using "1.prems"(2) by (simp add: length_mark_multiples)
      ultimately have
        "length (sieve_loop off lmt (i + 1) ?ps) = lmt \<and>
         (\<forall>k < lmt. sieve_loop off lmt (i + 1) ?ps ! k = is_prime (off + k))"
        using "1.IH"(2) [OF sq False] "1.prems"(1) by simp
      moreover have "sieve_loop off lmt i primes = sieve_loop off lmt (i + 1) ?ps"
        by (subst sieve_loop.simps) (simp only: sq False if_True if_False)
      ultimately show ?thesis by simp
    qed
  qed
qed

lemma not_prime_0_1: "\<not> is_prime 0" "\<not> is_prime 1" "\<not> is_prime (Suc 0)"
  by (simp_all add: is_prime_def)

lemma generatePrimesSieve_small:
  assumes "lmt < 2"
  shows "generatePrimesSieve 0 lmt = [False, False]"
proof -
  have st: "array_store (array_store (replicate lmt True) 1 False) 0 False = [False, False]"
  proof (cases "lmt = 0")
    case True
    then show ?thesis by (simp add: array_store_def)
  next
    case False
    with assms have "lmt = 1" by simp
    then show ?thesis by (simp add: array_store_def)
  qed
  have "sieve_loop 0 lmt 2 [False, False] = [False, False]"
    using assms by (subst sieve_loop.simps) simp
  with st show ?thesis by (simp add: generatePrimesSieve_def)
qed

lemma generatePrimesSieve_map:
  assumes "off \<noteq> 1" and "off = 0 \<longrightarrow> 2 \<le> lmt"
  shows "generatePrimesSieve off lmt = map is_prime [off..<off + lmt]"
proof -
  define ps where "ps = (if off = 0
      then array_store (array_store (replicate lmt True) 1 False) 0 False
      else replicate lmt True)"
  have len: "length ps = lmt"
    using assms by (auto simp: ps_def array_store_def)
  have nth: "ps ! k = (2 \<le> off + k)" if "k < lmt" for k
  proof (cases "off = 0")
    case True
    with assms have "2 \<le> lmt" by simp
    with True that show ?thesis
      by (auto simp: ps_def array_store_def nth_list_update)
  next
    case False
    with assms have "2 \<le> off" by simp
    with False that show ?thesis by (simp add: ps_def)
  qed
  have "sieved off 2 ps"
    unfolding sieved_def using nth len by auto
  from sieve_loop_correct [OF _ len this]
  have r: "length (sieve_loop off lmt 2 ps) = lmt"
    "\<And>k. k < lmt \<Longrightarrow> sieve_loop off lmt 2 ps ! k = is_prime (off + k)"
    by simp_all
  have "sieve_loop off lmt 2 ps = map is_prime [off..<off + lmt]"
    by (rule nth_equalityI) (simp_all add: r)
  then show ?thesis by (simp add: generatePrimesSieve_def ps_def Let_def)
qed

section \<open>The scan of one segment\<close>

lemma prime_count_primes_below: "prime_count k = length (primes_below k)"
  by (simp add: prime_count_def primes_below_def)

lemma scan_segment_spec:
  "scan_segment primes t off i count =
     (let idxs = filter (\<lambda>k. primes ! k) [i..<length primes]
      in if count \<le> t \<and> nat (t - count) < length idxs
         then Some (idxs ! nat (t - count) + off) else None)"
proof (induction primes t off i count rule: scan_segment.induct)
  case (1 primes t off i count)
  show ?case
  proof (cases "i < length primes")
    case False
    then show ?thesis by (subst scan_segment.simps) simp
  next
    case lt: True
    then have upt: "[i..<length primes] = i # [i + 1..<length primes]"
      by (simp add: upt_conv_Cons)
    show ?thesis
    proof (cases "primes ! i")
      case False
      with lt have "scan_segment primes t off i count =
          scan_segment primes t off (i + 1) count"
        by (subst scan_segment.simps) simp
      with "1.IH"(2) [OF lt False] False show ?thesis
        by (simp add: upt)
    next
      case p: True
      show ?thesis
      proof (cases "count = t")
        case True
        with lt p have "scan_segment primes t off i count = Some (i + off)"
          by (subst scan_segment.simps) simp
        with True p show ?thesis by (simp add: upt)
      next
        case False
        with lt p have "scan_segment primes t off i count =
            scan_segment primes t off (i + 1) (count + 1)"
          by (subst scan_segment.simps) simp
        moreover have "nat (t - count) = Suc (nat (t - (count + 1)))" if "count \<le> t"
          using that False by linarith
        moreover have "(count + 1 \<le> t) = (count \<le> t)"
          using False by linarith
        ultimately show ?thesis
          using "1.IH"(1) [OF lt p False] p by (auto simp: upt Let_def)
      qed
    qed
  qed
qed

lemma findTarget_spec:
  "0 \<le> t \<Longrightarrow> findTargetPrimeInSegment primes t off =
     (let idxs = filter (\<lambda>k. primes ! k) [0..<length primes]
      in if nat t < length idxs then Some (off + idxs ! nat t) else None)"
  by (simp add: findTargetPrimeInSegment_def scan_segment_spec Let_def add.commute)

lemma filter_shift:
  "map (\<lambda>k. off + k) (filter (\<lambda>k. P (off + k)) [0..<l]) = filter P [off..<off + l]"
proof -
  have "[off..<off + l] = map (\<lambda>k. off + k) [0..<l]"
    by (induction l) simp_all
  then show ?thesis by (simp add: filter_map comp_def)
qed

lemma findTarget_map:
  assumes "0 \<le> t"
  shows "findTargetPrimeInSegment (map P [off..<off + l]) t off =
     (if nat t < length (filter P [off..<off + l])
      then Some (filter P [off..<off + l] ! nat t) else None)"
proof -
  have idx: "filter (\<lambda>k. map P [off..<off + l] ! k) [0..<l] = filter (\<lambda>k. P (off + k)) [0..<l]"
    by (rule filter_cong) simp_all
  have "length (filter P [off..<off + l]) = length (filter (\<lambda>k. P (off + k)) [0..<l])"
    by (simp add: filter_shift [symmetric])
  moreover have "filter P [off..<off + l] ! nat t = off + filter (\<lambda>k. P (off + k)) [0..<l] ! nat t"
    if "nat t < length (filter (\<lambda>k. P (off + k)) [0..<l])"
    using that by (simp add: filter_shift [symmetric])
  ultimately show ?thesis
    using assms by (simp add: findTarget_spec idx)
qed

lemma primes_below_append:
  "a \<le> b \<Longrightarrow> primes_below b = primes_below a @ filter is_prime [a..<b]"
proof -
  assume "a \<le> b"
  then have "[0..<b] = [0..<a] @ [a..<b]"
    by (metis le_add_diff_inverse upt_add_eq_append zero_le)
  then show ?thesis by (simp add: primes_below_def)
qed

lemma prime_count_mono: "a \<le> b \<Longrightarrow> prime_count a \<le> prime_count b"
  by (simp add: prime_count_primes_below primes_below_append)

lemma primes_below_sorted: "sorted_wrt (<) (primes_below u)"
  unfolding primes_below_def by (rule sorted_wrt_filter) (rule sorted_wrt_upt)

section \<open>The loop over the segments\<close>

text \<open>The body of the loop on a state whose offset is not 1, chunk size at least 2.\<close>

lemma loop_body_first_tiny:
  assumes m: "2 \<le> m" and g: "int (offset s) < upperLimit" and a: "offset s = 0"
    and u: "upperLimit < 2"
  shows "loop_body m n upperLimit s = Inr \<lparr>primeCount = primeCount s, offset = 1\<rparr>"
proof -
  from g a u have u1: "upperLimit = 1" by simp
  from m have lmt: "min (Suc 0) m = Suc 0" by simp
  have "findTargetPrimeInSegment [False, False] t 0 = None" for t
    unfolding findTargetPrimeInSegment_def
    by (subst scan_segment.simps, simp)+
  then show ?thesis
    by (simp add: loop_body_def a u1 lmt generatePrimesSieve_small)
qed

lemma loop_body_regular:
  assumes m: "2 \<le> m" and g: "int (offset s) < upperLimit" and a: "offset s \<noteq> 1"
    and u: "offset s = 0 \<longrightarrow> 2 \<le> upperLimit" and t: "primeCount s \<le> n"
  defines "lmt \<equiv> min (nat (upperLimit - int (offset s))) m"
  defines "seg \<equiv> filter is_prime [offset s..<offset s + lmt]"
  shows "loop_body m n upperLimit s =
     (if nat (n - primeCount s) < length seg then Inl (seg ! nat (n - primeCount s))
      else Inr \<lparr>primeCount = primeCount s + int (length seg), offset = offset s + lmt\<rparr>)"
proof -
  have "offset s = 0 \<longrightarrow> 2 \<le> lmt" using m u by (auto simp: lmt_def)
  with a have "generatePrimesSieve (offset s) lmt = map is_prime [offset s..<offset s + lmt]"
    by (rule generatePrimesSieve_map)
  moreover have "0 \<le> n - primeCount s" using t by simp
  ultimately show ?thesis
    unfolding loop_body_def lmt_def [symmetric] Let_def
    by (simp add: findTarget_map comp_def seg_def)
qed

lemma loop_head_invariant:
  assumes m: "2 \<le> m" and h: "loop_head m n upperLimit s"
  shows "primeCount s = int (prime_count (offset s)) \<and>
         (offset s \<noteq> 1 \<or> upperLimit \<le> int (offset s))"
  using h
proof (induction rule: loop_head.induct)
  case start
  show ?case by (simp add: prime_count_def)
next
  case (again s s')
  from again.IH again.hyps(2) have a: "offset s \<noteq> 1" and c: "primeCount s = int (prime_count (offset s))"
    by auto
  show ?case
  proof (cases "offset s = 0 \<and> upperLimit < 2")
    case True
    with loop_body_first_tiny [OF m again.hyps(2), of n] again.hyps(3)
    have s': "s' = \<lparr>primeCount = primeCount s, offset = 1\<rparr>" by simp
    from True again.hyps(2) have "upperLimit = 1" by simp
    moreover have "prime_count 1 = 0" "prime_count 0 = 0"
      by (simp_all add: prime_count_def not_prime_0_1)
    ultimately show ?thesis using c True by (simp add: s')
  next
    case False
    define lmt where "lmt = min (nat (upperLimit - int (offset s))) m"
    define seg where "seg = filter is_prime [offset s..<offset s + lmt]"
    have pc: "prime_count (offset s + lmt) = prime_count (offset s) + length seg"
      by (simp add: prime_count_primes_below primes_below_append [of "offset s" "offset s + lmt"] seg_def)
    have lim2: "offset s = 0 \<longrightarrow> 2 \<le> lmt" using False m again.hyps(2) by (auto simp: lmt_def)
    show ?thesis
    proof (cases "primeCount s \<le> n")
      case True
      from loop_body_regular [OF m again.hyps(2) a _ True] False again.hyps(3)
      have s': "s' = \<lparr>primeCount = primeCount s + int (length seg), offset = offset s + lmt\<rparr>"
        by (auto simp: lmt_def seg_def split: if_splits)
      with a lim2 c pc show ?thesis by auto
    next
      case neg: False
      have sieve: "generatePrimesSieve (offset s) lmt = map is_prime [offset s..<offset s + lmt]"
        using a lim2 by (rule generatePrimesSieve_map)
      have "findTargetPrimeInSegment primes (n - primeCount s) off = None" for primes off
        using neg by (simp add: findTargetPrimeInSegment_def scan_segment_spec)
      with again.hyps(3)
      have s': "s' = \<lparr>primeCount = primeCount s + int (length seg), offset = offset s + lmt\<rparr>"
        unfolding loop_body_def lmt_def [symmetric] Let_def
        by (simp add: sieve comp_def seg_def)
      with a lim2 c pc show ?thesis by auto
    qed
  qed
qed

lemma findNthPrime_loop_correct:
  assumes m: "2 \<le> m"
  shows "primeCount s = int (prime_count (offset s)) \<Longrightarrow> primeCount s \<le> n \<Longrightarrow>
     offset s \<noteq> 1 \<or> upperLimit \<le> int (offset s) \<Longrightarrow>
     findNthPrime_loop m n upperLimit s = Some (nth_prime_below (nat upperLimit) (nat n))"
proof (induction "nat (upperLimit - int (offset s))" arbitrary: s rule: less_induct)
  case less
  note c = less.prems(1) and t = less.prems(2) and a = less.prems(3)
  show ?case
  proof (cases "int (offset s) < upperLimit")
    case False
    then have "nat upperLimit \<le> offset s" by simp
    from prime_count_mono [OF this] c t
    have "length (primes_below (nat upperLimit)) \<le> nat n"
      by (simp add: prime_count_primes_below)
    with False show ?thesis
      by (subst findNthPrime_loop.simps) (simp add: nth_prime_below_def)
  next
    case g: True
    with a have a1: "offset s \<noteq> 1" by simp
    show ?thesis
    proof (cases "offset s = 0 \<and> upperLimit < 2")
      case True
      with g have u: "upperLimit = 1" by simp
      have "primes_below 1 = []"
        by (simp add: primes_below_def not_prime_0_1)
      then have spec: "nth_prime_below (nat upperLimit) (nat n) = Inl BoundExceeded"
        by (simp add: nth_prime_below_def u)
      have "findNthPrime_loop m n upperLimit \<lparr>primeCount = primeCount s, offset = 1\<rparr>
          = Some (Inl BoundExceeded)"
        by (subst findNthPrime_loop.simps) (simp add: u)
      with g loop_body_first_tiny [OF m g, of n] True show ?thesis
        by (subst findNthPrime_loop.simps) (simp add: spec)
    next
      case False
      define lmt where "lmt = min (nat (upperLimit - int (offset s))) m"
      define seg where "seg = filter is_prime [offset s..<offset s + lmt]"
      have lim1: "1 \<le> lmt" using g m by (simp add: lmt_def)
      have le: "offset s + lmt \<le> nat upperLimit" using g by (simp add: lmt_def)
      have body: "loop_body m n upperLimit s =
          (if nat (n - primeCount s) < length seg then Inl (seg ! nat (n - primeCount s))
           else Inr \<lparr>primeCount = primeCount s + int (length seg), offset = offset s + lmt\<rparr>)"
        using loop_body_regular [OF m g a1 _ t] False by (auto simp: lmt_def seg_def)
      have pb: "primes_below (offset s + lmt) = primes_below (offset s) @ seg"
        by (simp add: primes_below_append [of "offset s" "offset s + lmt"] seg_def)
      have pu: "primes_below (nat upperLimit) =
          primes_below (offset s + lmt) @ filter is_prime [offset s + lmt..<nat upperLimit]"
        using le by (rule primes_below_append)
      have nn: "nat n = length (primes_below (offset s)) + nat (n - primeCount s)"
        using c t by (simp add: prime_count_primes_below)
      show ?thesis
      proof (cases "nat (n - primeCount s) < length seg")
        case True
        then have "nat n < length (primes_below (nat upperLimit))"
          and "primes_below (nat upperLimit) ! nat n = seg ! nat (n - primeCount s)"
          unfolding pu pb nn by (simp_all add: nth_append)
        then have "nth_prime_below (nat upperLimit) (nat n) = Inr (seg ! nat (n - primeCount s))"
          by (simp add: nth_prime_below_def)
        with g body True show ?thesis
          by (subst findNthPrime_loop.simps) simp
      next
        case nf: False
        let ?s' = "\<lparr>primeCount = primeCount s + int (length seg), offset = offset s + lmt\<rparr>"
        have "findNthPrime_loop m n upperLimit ?s' = Some (nth_prime_below (nat upperLimit) (nat n))"
        proof (rule less.hyps)
          show "nat (upperLimit - int (offset ?s')) < nat (upperLimit - int (offset s))"
            using g lim1 by simp
          show "primeCount ?s' = int (prime_count (offset ?s'))"
            using c by (simp add: prime_count_primes_below pb)
          show "primeCount ?s' \<le> n" using nf t by simp
          show "offset ?s' \<noteq> 1 \<or> upperLimit \<le> int (offset ?s')"
            using a1 False lim1 g m by (auto simp: lmt_def)
        qed
        with g body nf show ?thesis
          by (subst findNthPrime_loop.simps) simp
      qed
    qed
  qed
qed

lemma findNthPrime_with_correct:
  "2 \<le> m \<Longrightarrow> 0 \<le> n \<Longrightarrow>
   findNthPrime_with m n upperLimit = Some (nth_prime_below (nat upperLimit) (nat n))"
  unfolding findNthPrime_with_def
  by (rule findNthPrime_loop_correct) (simp_all add: prime_count_def)

lemma NthPrime_with_correct:
  "2 \<le> m \<Longrightarrow> 0 < n \<Longrightarrow>
   NthPrime_with m pnt n =
     Some (nth_prime_below (nat (calculateUpperLimit pnt (n + 1))) (nat n))"
  by (simp add: NthPrime_with_def findNthPrime_with_correct)

subsection \<open>Facts shared by the statements below\<close>

lemma count_true_indices:
  "length (filter (\<lambda>i. xs ! i) [0..<length xs]) = length (filter (\<lambda>b. b) xs)"
proof -
  have "length (filter (\<lambda>b. b) (map (\<lambda>i. xs ! i) [0..<length xs])) =
      length (filter (\<lambda>i. xs ! i) [0..<length xs])"
    by (simp add: comp_def)
  then show ?thesis by (simp add: map_nth)
qed

lemma primes_below_nth_less:
  assumes "n1 < n2" and "n1 < length (primes_below u1)" and "n2 < length (primes_below u2)"
  shows "primes_below u1 ! n1 < primes_below u2 ! n2"
proof (cases "u1 \<le> u2")
  case True
  from primes_below_append [OF True] assms(2)
  have "primes_below u1 ! n1 = primes_below u2 ! n1" by (simp add: nth_append)
  with sorted_wrt_nth_less [OF primes_below_sorted [of u2] assms(1) assms(3)]
  show ?thesis by simp
next
  case False
  then have le: "u2 \<le> u1" by simp
  from primes_below_append [OF le] assms(3)
  have eq: "primes_below u2 ! n2 = primes_below u1 ! n2"
    and "n2 < length (primes_below u1)" by (simp_all add: nth_append)
  from sorted_wrt_nth_less [OF primes_below_sorted [of u1] assms(1) this(2)] eq
  show ?thesis by simp
qed

lemma NthPrime_with_Inr:
  assumes m: "2 \<le> m" and n: "0 \<le> n" and r: "NthPrime_with m pnt n = Some (Inr p)"
  shows "\<exists>u. nat n < length (primes_below u) \<and> p = primes_below u ! nat n"
proof (cases "n = 0")
  case True
  have "primes_below 3 = [2]" by code_simp
  moreover from True r have "p = 2" by (simp add: NthPrime_with_def)
  ultimately have "nat n < length (primes_below 3) \<and> p = primes_below 3 ! nat n"
    using True by simp
  then show ?thesis ..
next
  case False
  with n have "0 < n" by simp
  from NthPrime_with_correct [OF m this, of pnt] r
  have "nth_prime_below (nat (calculateUpperLimit pnt (n + 1))) (nat n) = Inr p" by simp
  then have "nat n < length (primes_below (nat (calculateUpperLimit pnt (n + 1)))) \<and>
      p = primes_below (nat (calculateUpperLimit pnt (n + 1))) ! nat n"
    by (simp add: nth_prime_below_def split: if_splits)
  then show ?thesis ..
qed

lemma MAX_ARRAY_SIZE_ge_2: "2 \<le> MAX_ARRAY_SIZE"
  by (simp add: MAX_ARRAY_SIZE_def)

lemma primes_below_nth_rank:
  assumes n: "n < length (primes_below u)"
  shows "is_prime (primes_below u ! n) \<and> prime_count (primes_below u ! n) = n"
proof -
  define p where "p = primes_below u ! n"
  from n have mem: "p \<in> set (primes_below u)" by (simp add: p_def)
  then have pp: "is_prime p" and pu: "p < u" by (simp_all add: primes_below_def)
  have "[p..<u] = p # [Suc p..<u]" using pu by (simp add: upt_conv_Cons)
  with primes_below_append [of p u] pu pp
  have split: "primes_below u = primes_below p @ p # filter is_prime [Suc p..<u]" by simp
  then have at: "primes_below u ! length (primes_below p) = p"
    and len: "length (primes_below p) < length (primes_below u)" by simp_all
  have "distinct (primes_below u)" by (simp add: primes_below_def)
  from nth_eq_iff_index_eq [OF this n len] at have "n = length (primes_below p)"
    by (simp add: p_def)
  then have "prime_count p = n" by (simp add: prime_count_primes_below)
  with pp show ?thesis unfolding p_def by simp
qed

text \<open>
  A number that \<^verbatim>\<open>NthPrime(n)\<close> returns is the prime of rank \<open>n\<close>: it is prime, and \<open>n\<close>
  primes lie below it.
\<close>

lemma NthPrime_returns_rank:
  assumes "0 \<le> n" and "NthPrime pnt n = Some (Inr p)"
  shows "is_prime p \<and> int (prime_count p) = n"
proof -
  from NthPrime_with_Inr [OF MAX_ARRAY_SIZE_ge_2 assms(1)] assms(2)
  obtain u where "nat n < length (primes_below u)" "p = primes_below u ! nat n"
    unfolding NthPrime_def by blast
  with primes_below_nth_rank [of "nat n" u] assms(1) show ?thesis by simp
qed

lemma NthPrime_small_rank:
  "0 < n \<Longrightarrow> n < 5 \<Longrightarrow> NthPrime pnt n = Some (nth_prime_below 11 (nat n))"
  by (simp add: NthPrime_def NthPrime_with_correct MAX_ARRAY_SIZE_ge_2 calculateUpperLimit_def)

lemma nth_prime_below_11:
  "nth_prime_below 11 3 = Inr 7" "nth_prime_below 11 4 = Inl BoundExceeded"
  by code_simp+

lemma NthPrime_15_5: "NthPrime 15 5 = Some (Inr 13)"
proof -
  have "nth_prime_below 15 5 = Inr 13" by code_simp
  then show ?thesis
    by (simp add: NthPrime_def NthPrime_with_correct MAX_ARRAY_SIZE_ge_2 calculateUpperLimit_def)
qed

lemma NthPrime_0_3: "NthPrime 0 3 = Some (Inr 7)"
  using NthPrime_small_rank [of 3 0] by (simp add: nth_prime_below_11)

section \<open>Properties of the program\<close>

text \<open>
  C1 (the code departs from the claim). The claim has \<^verbatim>\<open>NthPrime(4) = 11\<close>, and 11 is the
  prime of rank 4. In the code rank 4 takes the fixed upper limit 11 of
  \<^verbatim>\<open>calculateUpperLimit\<close> (commented "fifth prime"), the loop searches the numbers below
  that limit, and the call ends in the error "not found within calculated upper limit".
  Where the code does return a number, it is the prime of that rank
  (\<open>NthPrime_returns_rank\<close>).
\<close>

theorem NthPrime_rank_4_not_11:
  "NthPrime pnt 4 = Some (Inl BoundExceeded) \<and> nth_prime_below 12 4 = Inr 11"
proof -
  have "nth_prime_below 12 4 = Inr 11" by code_simp
  with NthPrime_small_rank [of 4 pnt] show ?thesis by (simp add: nth_prime_below_11)
qed

text \<open>
  C2 (the code departs from the claim). The claim has every rank from 0 to 100000 return
  without the bound-exceeded error. Rank 4 returns no number: it raises that error, by
  the defect of C1.
\<close>

theorem NthPrime_rank_4_no_result:
  "\<not> (\<exists>p. NthPrime pnt 4 = Some (Inr p))"
  using NthPrime_small_rank [of 4 pnt] by (simp add: nth_prime_below_11)

text \<open>
  C3, as stated, fails at offset 1: the only entry of the segment of length 1 is true,
  and 1 is not prime (the source clears the entries of 0 and 1 only when the offset
  is 0).
\<close>

theorem generatePrimesSieve_offset_1:
  "generatePrimesSieve 1 1 = [True] \<and> \<not> is_prime (1 + 0)"
  by code_simp

text \<open>
  C3, amended: for every offset other than 1 and every length, the segment returned by
  \<^verbatim>\<open>generatePrimesSieve\<close> is true at index \<open>i\<close> exactly when \<open>offset + i\<close> is prime. The
  segment has the length asked for, except that at offset 0 it has at least the two
  entries of 0 and 1, which are false.
\<close>

theorem generatePrimesSieve_correct:
  assumes "off \<noteq> 1"
  shows "length (generatePrimesSieve off lmt) = (if off = 0 then max lmt 2 else lmt) \<and>
     (\<forall>i < length (generatePrimesSieve off lmt).
        generatePrimesSieve off lmt ! i = is_prime (off + i))"
proof (cases "off = 0 \<and> lmt < 2")
  case True
  then have "generatePrimesSieve off lmt = [False, False]"
    by (simp add: generatePrimesSieve_small)
  with True show ?thesis
    by (auto simp: less_Suc_eq not_prime_0_1 numeral_2_eq_2)
next
  case False
  with assms have "generatePrimesSieve off lmt = map is_prime [off..<off + lmt]"
    by (intro generatePrimesSieve_map) auto
  with False show ?thesis by auto
qed

text \<open>
  The two segments of the specification: offset 0 and length 30, with true indices
  2, 3, 5, 7, 11, 13, 17, 19, 23, 29, and offset 20 and length 10, with true values 23
  and 29.
\<close>

theorem generatePrimesSieve_correct_witness:
  "(0::nat) \<noteq> 1 \<and> (20::nat) \<noteq> 1 \<and>
   filter (\<lambda>i. generatePrimesSieve 0 30 ! i) [0..<30] =
     [2, 3, 5, 7, 11, 13, 17, 19, 23, 29] \<and>
   map (\<lambda>i. 20 + i) (filter (\<lambda>i. generatePrimesSieve 20 10 ! i) [0..<10]) = [23, 29]"
proof -
  have "filter (\<lambda>i. generatePrimesSieve 0 30 ! i) [0..<30] =
      filter (\<lambda>i. is_prime (0 + i)) [0..<30]"
    using generatePrimesSieve_correct [of 0 30] by (intro filter_cong) auto
  also have "\<dots> = [2, 3, 5, 7, 11, 13, 17, 19, 23, 29]"
    by code_simp
  finally have a: "filter (\<lambda>i. generatePrimesSieve 0 30 ! i) [0..<30] =
      [2, 3, 5, 7, 11, 13, 17, 19, 23, 29]" .
  have "filter (\<lambda>i. generatePrimesSieve 20 10 ! i) [0..<10] =
      filter (\<lambda>i. is_prime (20 + i)) [0..<10]"
    using generatePrimesSieve_correct [of 20 10] by (intro filter_cong) auto
  also have "\<dots> = [3, 9]"
    by code_simp
  finally have b: "filter (\<lambda>i. generatePrimesSieve 20 10 ! i) [0..<10] = [3, 9]" .
  show ?thesis by (simp add: a b)
qed

text \<open>
  C4, as stated, fails for the chunk size 1: the second chunk starts at offset 1, its
  sieve keeps 1 as a prime, and rank 1 yields 2 where the chunk size 1000000 yields 3.
\<close>

theorem NthPrime_chunk_size_1:
  "NthPrime_with 1 0 1 = Some (Inr 2) \<and> NthPrime_with 1000000 0 1 = Some (Inr 3)"
proof -
  have "NthPrime_with 1 0 1 = Some (Inr 2)" by code_simp
  moreover have "nth_prime_below 11 1 = Inr 3" by code_simp
  then have "NthPrime_with 1000000 0 1 = Some (Inr 3)"
    by (simp add: NthPrime_with_correct calculateUpperLimit_def)
  ultimately show ?thesis by simp
qed

text \<open>
  C4, amended: for every two chunk sizes of at least 2, every value of the estimate and
  every rank \<open>n\<close>, negative ones included, \<^verbatim>\<open>NthPrime\<close> has the same outcome: the same
  number, or the same error.
\<close>

theorem NthPrime_chunk_independent:
  assumes "2 \<le> m1" and "2 \<le> m2"
  shows "NthPrime_with m1 pnt n = NthPrime_with m2 pnt n"
proof (cases "0 < n")
  case True
  with assms show ?thesis by (simp add: NthPrime_with_correct)
next
  case False
  then show ?thesis by (simp add: NthPrime_with_def)
qed

theorem NthPrime_chunk_independent_witness:
  "(2::nat) \<le> 10 \<and> (2::nat) \<le> 1000000 \<and>
   NthPrime_with 10 15 5 = NthPrime_with 1000000 15 5 \<and>
   NthPrime_with 10 15 5 = Some (Inr 13)"
proof -
  have "NthPrime_with 10 15 5 = Some (Inr 13)" by code_simp
  moreover have "NthPrime_with 10 15 5 = NthPrime_with 1000000 15 5"
    by (rule NthPrime_chunk_independent) simp_all
  ultimately show ?thesis by simp
qed

text \<open>
  C5 (the code departs from the claim). The claim has \<^verbatim>\<open>NthPrime(3) < NthPrime(4)\<close>. Rank 3
  yields 7, and rank 4 yields no number to compare with it: it raises the
  bound-exceeded error, by the defect of C1.
\<close>

theorem NthPrime_3_4_not_ordered:
  "NthPrime 0 3 = Some (Inr 7) \<and> NthPrime 0 4 = Some (Inl BoundExceeded)"
  using NthPrime_small_rank [of 4 0] by (simp add: NthPrime_0_3 nth_prime_below_11)

text \<open>
  Between the numbers that \<^verbatim>\<open>NthPrime\<close> does return the order holds: for all ranks
  \<open>0 \<le> n1 < n2\<close> at which it returns numbers, the number at \<open>n1\<close> is less than the
  number at \<open>n2\<close>, whatever the two estimates are.
\<close>

lemma NthPrime_strict_mono:
  assumes "0 \<le> n1" and "n1 < n2"
    and "NthPrime pnt1 n1 = Some (Inr p1)" and "NthPrime pnt2 n2 = Some (Inr p2)"
  shows "p1 < p2"
proof -
  from assms(1,2) have n2: "0 \<le> n2" by simp
  from NthPrime_with_Inr [OF MAX_ARRAY_SIZE_ge_2 assms(1)] assms(3)
  obtain u1 where u1: "nat n1 < length (primes_below u1)" "p1 = primes_below u1 ! nat n1"
    unfolding NthPrime_def by blast
  from NthPrime_with_Inr [OF MAX_ARRAY_SIZE_ge_2 n2] assms(4)
  obtain u2 where u2: "nat n2 < length (primes_below u2)" "p2 = primes_below u2 ! nat n2"
    unfolding NthPrime_def by blast
  from assms(1,2) have "nat n1 < nat n2" by simp
  from primes_below_nth_less [OF this u1(1) u2(1)] show ?thesis
    by (simp add: u1(2) u2(2))
qed

lemma NthPrime_strict_mono_at_3_5:
  "(0::int) \<le> 3 \<and> (3::int) < 5 \<and> NthPrime 0 3 = Some (Inr 7) \<and>
   NthPrime 15 5 = Some (Inr 13) \<and> (7::nat) < 13"
  using NthPrime_strict_mono [of 3 5 0 7 15 13] NthPrime_0_3 NthPrime_15_5 by simp

text \<open>
  C6: \<^verbatim>\<open>NthPrime(n)\<close> raises the invalid-argument error exactly when \<open>n < 0\<close>. The check
  is the first statement of the function, so for a negative \<open>n\<close> the outcome is this
  error whatever the estimate would be; a rank \<open>n \<ge> 0\<close> never raises it.
\<close>

theorem NthPrime_invalid_argument_iff:
  "(NthPrime pnt n = Some (Inl InvalidArgument)) = (n < 0)"
proof (cases "0 < n")
  case True
  then show ?thesis
    by (simp add: NthPrime_def NthPrime_with_correct MAX_ARRAY_SIZE_ge_2 nth_prime_below_def)
next
  case False
  then show ?thesis by (simp add: NthPrime_def NthPrime_with_def)
qed

theorem NthPrime_invalid_argument_iff_witness:
  "NthPrime 0 (- 1) = Some (Inl InvalidArgument) \<and>
   NthPrime 0 3 \<noteq> Some (Inl InvalidArgument)"
  using NthPrime_invalid_argument_iff [of 0 "- 1"] NthPrime_invalid_argument_iff [of 0 3]
  by simp

text \<open>
  C7: for every segment, every target index \<open>t \<ge> 0\<close> and every offset,
  \<^verbatim>\<open>findTargetPrimeInSegment\<close> returns, when the segment has more than \<open>t\<close> true entries,
  the offset plus the index of the true entry number \<open>t\<close> (from 0) in increasing index
  order, and otherwise "not found".
\<close>

theorem findTargetPrimeInSegment_correct:
  assumes "0 \<le> targetIndex"
  shows "findTargetPrimeInSegment segment targetIndex off =
     (if targetIndex < int (length (filter (\<lambda>b. b) segment))
      then Some (off + filter (\<lambda>i. segment ! i) [0..<length segment] ! nat targetIndex)
      else None)"
proof -
  have "(nat targetIndex < length (filter (\<lambda>i. segment ! i) [0..<length segment])) =
      (targetIndex < int (length (filter (\<lambda>b. b) segment)))"
    using assms by (simp add: count_true_indices nat_less_iff)
  with assms show ?thesis by (simp add: findTarget_spec)
qed

theorem findTargetPrimeInSegment_correct_witness:
  "(0::int) \<le> 1 \<and> (0::int) \<le> 3 \<and>
   findTargetPrimeInSegment [False, True, True, False, True] 1 20 = Some 22 \<and>
   findTargetPrimeInSegment [False, True, True, False, True] 3 20 = None"
proof -
  let ?seg = "[False, True, True, False, True]"
  have a: "(if (1::int) < int (length (filter (\<lambda>b. b) ?seg))
      then Some (20 + filter (\<lambda>i. ?seg ! i) [0..<length ?seg] ! nat 1) else None) = Some (22::nat)"
    by code_simp
  have b: "(if (3::int) < int (length (filter (\<lambda>b. b) ?seg))
      then Some (20 + filter (\<lambda>i. ?seg ! i) [0..<length ?seg] ! nat 3) else None) = (None :: nat option)"
    by code_simp
  have "findTargetPrimeInSegment ?seg 1 20 = Some 22"
    by (rule trans [OF findTargetPrimeInSegment_correct a]) simp
  moreover have "findTargetPrimeInSegment ?seg 3 20 = None"
    by (rule trans [OF findTargetPrimeInSegment_correct b]) simp
  ultimately show ?thesis by simp
qed

text \<open>
  C8: \<^verbatim>\<open>calculateUpperLimit(n)\<close> is never below \<open>n\<close>. Below 6 it is the constant 11; from
  6 on it is the ceiling of \<open>n * (lg n + lg (lg n))\<close>, which is at least \<open>n\<close> for every
  logarithm \<open>lg\<close> that is at least 1 from 6 on and at least 0 from 1 on, as the natural
  logarithm is.
\<close>

theorem calculateUpperLimit_ge_argument:
  assumes six: "\<And>x. 6 \<le> x \<Longrightarrow> 1 \<le> lg x" and one: "\<And>x. 1 \<le> x \<Longrightarrow> 0 \<le> lg x"
  shows "n \<le> calculateUpperLimit (pnt_estimate lg n) n"
proof (cases "n < 6")
  case True
  then show ?thesis by (simp add: calculateUpperLimit_def)
next
  case False
  then have n6: "6 \<le> real_of_int n" by simp
  from six [OF n6] have l1: "1 \<le> lg (real_of_int n)" .
  from one [OF l1] have l2: "0 \<le> lg (lg (real_of_int n))" .
  from l1 l2 have "1 \<le> lg (real_of_int n) + lg (lg (real_of_int n))" by linarith
  moreover from n6 have "0 \<le> real_of_int n" by linarith
  ultimately have "real_of_int n * 1 \<le>
      real_of_int n * (lg (real_of_int n) + lg (lg (real_of_int n)))"
    by (rule mult_left_mono)
  then have "real_of_int n \<le> real_of_int n * (lg (real_of_int n) + lg (lg (real_of_int n)))"
    by simp
  then have "n \<le> pnt_estimate lg n"
    unfolding pnt_estimate_def by (simp add: le_ceiling_iff)
  with False show ?thesis by (simp add: calculateUpperLimit_def)
qed

text \<open>The natural logarithm of the reals, at the arguments 4 and 6.\<close>

theorem calculateUpperLimit_ge_argument_witness:
  "1 \<le> ln (6::real) \<and> 0 \<le> ln (1::real) \<and>
   (4::int) \<le> calculateUpperLimit (pnt_estimate ln 4) 4 \<and>
   (6::int) \<le> calculateUpperLimit (pnt_estimate ln 6) 6"
proof -
  have six: "1 \<le> ln x" if "6 \<le> x" for x :: real
  proof -
    have "exp (1::real) \<le> 3" by (rule exp_le)
    with that have "exp 1 \<le> x" by linarith
    moreover from that have "0 < x" by linarith
    ultimately show ?thesis by (simp add: ln_ge_iff)
  qed
  have one: "0 \<le> ln x" if "1 \<le> x" for x :: real
    using that by simp
  from calculateUpperLimit_ge_argument [of ln 4, OF six one]
    calculateUpperLimit_ge_argument [of ln 6, OF six one] six [of 6]
  show ?thesis by simp
qed

text \<open>
  C9: a number that \<^verbatim>\<open>NthPrime(n)\<close> returns for \<open>n \<ge> 0\<close> is prime, and so at least 2.
\<close>

theorem NthPrime_returns_prime:
  assumes "0 \<le> n" and "NthPrime pnt n = Some (Inr p)"
  shows "is_prime p \<and> 2 \<le> p"
proof -
  from NthPrime_with_Inr [OF MAX_ARRAY_SIZE_ge_2 assms(1)] assms(2)
  obtain u where "nat n < length (primes_below u)" "p = primes_below u ! nat n"
    unfolding NthPrime_def by blast
  then have "p \<in> set (primes_below u)" by simp
  then have "is_prime p" by (simp add: primes_below_def)
  then show ?thesis by (simp add: is_prime_def)
qed

theorem NthPrime_returns_prime_witness:
  "(0::int) \<le> 5 \<and> NthPrime 15 5 = Some (Inr 13) \<and> is_prime 13 \<and> (2::nat) \<le> 13"
  using NthPrime_returns_prime [of 5 15 13] NthPrime_15_5 by simp

text \<open>
  C10: at the start of every iteration of the loop of \<^verbatim>\<open>findNthPrime\<close>, that is in the
  initial state and in every state that an iteration of the loop leaves for the next
  one, \<^verbatim>\<open>primeCount\<close> is the number of primes below \<^verbatim>\<open>offset\<close>.
\<close>

theorem findNthPrime_loop_invariant:
  assumes "loop_head MAX_ARRAY_SIZE n upperLimit s"
  shows "primeCount s = int (prime_count (offset s))"
  using loop_head_invariant [OF MAX_ARRAY_SIZE_ge_2 assms] by simp

theorem findNthPrime_loop_invariant_witness:
  "loop_head MAX_ARRAY_SIZE 4 11 \<lparr>primeCount = 4, offset = 11\<rparr> \<and> prime_count 11 = 4"
proof -
  have seg: "filter is_prime [0..<11] = [2, 3, 5, 7]" by code_simp
  have body: "loop_body MAX_ARRAY_SIZE 4 11 \<lparr>primeCount = 0, offset = 0\<rparr> =
      Inr \<lparr>primeCount = 4, offset = 11\<rparr>"
    by (subst loop_body_regular) (simp_all add: MAX_ARRAY_SIZE_def seg)
  have h: "loop_head MAX_ARRAY_SIZE 4 11 \<lparr>primeCount = 4, offset = 11\<rparr>"
  proof (rule loop_head.again)
    show "loop_head MAX_ARRAY_SIZE 4 11 \<lparr>primeCount = 0, offset = 0\<rparr>"
      by (rule loop_head.start)
    show "int (offset \<lparr>primeCount = 0, offset = 0\<rparr>) < 11" by simp
    show "loop_body MAX_ARRAY_SIZE 4 11 \<lparr>primeCount = 0, offset = 0\<rparr> =
        Inr \<lparr>primeCount = 4, offset = 11\<rparr>" by (rule body)
  qed
  from findNthPrime_loop_invariant [OF h] have "prime_count 11 = 4" by simp
  with h show ?thesis by simp
qed

end
